theory Spec2Isabelle
  imports Complex_Main
begin

section \<open>The task unit of \<open>parallelism/thread_scheduler.py\<close>\<close>

text \<open>
  The class \<open>Job\<close> wraps a callable and runs it periodically: a supervisory loop
  (\<open>_loop\<close>) arms one-shot timers, and each timer runs the execution wrapper
  (\<open>_wrapper\<close>) once. Both paths communicate through the fields of the object.

  The six values the attribute \<open>status\<close> ever receives are a datatype. The wrapped
  callable is opaque: all that the class sees of one call is whether it returned or
  raised, and in the latter case the text of \<open>traceback.format_exc()\<close>.
\<close>

datatype status = INITIATED | SCHEDULED | RUNNING | COMPLETED | FAILED | TERMINATED

datatype outcome = Returns | Raises string

text \<open>
  The exception raised at the end of \<open>_wrapper\<close> when the crash ceiling is exceeded;
  it carries the counter that the message prints.
\<close>

datatype error = Aborting int

text \<open>
  The attributes assigned by \<open>__init__\<close>, under their own names. \<open>_stop_event\<close> is the
  flag of the \<open>Event\<close>; \<open>job\<close> holds the interval of the \<open>Timer\<close> created last, when
  there is one. Clock readings and the period are rationals; the counters are
  Python's unbounded integers.
\<close>

record Job =
  every_seconds :: rat
  stop_event :: bool
  job :: "int option"
  crashed :: int
  runs :: int
  max_runs :: int
  max_crashes :: int
  status :: status
  next_execution_at :: rat
  exception_list :: "string list"

definition init :: "rat \<Rightarrow> int \<Rightarrow> int \<Rightarrow> Job" where
  "init every max_c max_r =
     \<lparr>every_seconds = every, stop_event = False, job = None, crashed = 0, runs = 0,
      max_runs = max_r, max_crashes = max_c, status = INITIATED,
      next_execution_at = 0, exception_list = []\<rparr>"

definition stop :: "Job \<Rightarrow> Job" where
  "stop j = j\<lparr>stop_event := True\<rparr>"

definition exception :: "Job \<Rightarrow> string list option" where
  "exception j = (if length (exception_list j) = 0 then None else Some (exception_list j))"

definition clear_exception :: "Job \<Rightarrow> Job" where
  "clear_exception j = j\<lparr>exception_list := []\<rparr>"

subsection \<open>The execution wrapper\<close>

text \<open>
  One call of \<open>_wrapper\<close> as a function of the object, that is, with no other thread
  touching the object meanwhile. It is split where it calls the work: \<open>wrapper_begin\<close>
  is everything before the call (the status becomes \<open>RUNNING\<close> and the next due time
  is stored), \<open>wrapper_end\<close> everything after it. The rest of the \<open>try\<close> block runs when
  the work returned, the \<open>except\<close> block when it raised, and the \<open>finally\<close> block in
  both cases. The \<open>finally\<close> block may raise; the object keeps the assignments made
  before that, so the result is the object together with the exception, if any.
\<close>

definition wrapper_begin :: "rat \<Rightarrow> Job \<Rightarrow> Job" where
  "wrapper_begin now j =
     (let j1 = j\<lparr>status := RUNNING\<rparr>
      in j1\<lparr>next_execution_at := now + every_seconds j1\<rparr>)"

definition wrapper_try :: "Job \<Rightarrow> Job" where
  "wrapper_try j =
     (let j1 = j\<lparr>crashed := 0\<rparr>;
          j2 = j1\<lparr>runs := runs j1 + 1\<rparr>
      in if every_seconds j2 = 0 \<or> runs j2 = max_runs j2 then stop j2 else j2)"

definition wrapper_except :: "string \<Rightarrow> Job \<Rightarrow> Job" where
  "wrapper_except tb j =
     (let j1 = j\<lparr>exception_list := exception_list j @ [tb]\<rparr>
      in j1\<lparr>crashed := crashed j1 + 1\<rparr>)"

definition wrapper_finally :: "Job \<Rightarrow> Job \<times> error option" where
  "wrapper_finally j =
     (if crashed j > max_crashes j
      then (stop (j\<lparr>status := FAILED\<rparr>), Some (Aborting (crashed j)))
      else (j\<lparr>status := COMPLETED\<rparr>, None))"

definition wrapper_end :: "outcome \<Rightarrow> Job \<Rightarrow> Job \<times> error option" where
  "wrapper_end oc j =
     wrapper_finally (case oc of Returns \<Rightarrow> wrapper_try j | Raises tb \<Rightarrow> wrapper_except tb j)"

definition wrapper :: "rat \<Rightarrow> outcome \<Rightarrow> Job \<Rightarrow> Job \<times> error option" where
  "wrapper now oc j = wrapper_end oc (wrapper_begin now j)"

subsection \<open>The supervisory loop\<close>

text \<open>Python's \<open>round\<close> of one argument: to the nearest integer, ties to the even one.\<close>

definition py_round :: "rat \<Rightarrow> int" where
  "py_round x =
     (let f = \<lfloor>x\<rfloor>; d = x - of_int f
      in if d < 1 / 2 then f else if 1 / 2 < d then f + 1
         else if even f then f else f + 1)"

definition execute_in_seconds :: "rat \<Rightarrow> Job \<Rightarrow> int" where
  "execute_in_seconds now j =
     (if now < next_execution_at j then py_round (next_execution_at j - now) else 1)"

text \<open>
  One pass through the body of the \<open>while\<close> loop of \<open>_loop\<close> as a function of the
  object, again with no other thread touching the object meanwhile, at clock reading
  \<open>now\<close> (the two readings of the clock in the computation of the delay are taken as
  one). The result is the object, the local variable \<open>terminate\<close>, and whether a timer
  was started in this pass. A status outside the three tested groups falls through
  all branches.
\<close>

definition loop_body :: "rat \<Rightarrow> Job \<Rightarrow> Job \<times> bool \<times> bool" where
  "loop_body now j =
     (if stop_event j
      then (j\<lparr>status := (if status j \<noteq> FAILED then TERMINATED else status j)\<rparr>, True, False)
      else if status j \<in> {RUNNING, SCHEDULED} then (j, False, False)
      else if status j \<in> {COMPLETED, INITIATED}
      then (let j1 = j\<lparr>job := Some (execute_in_seconds now j)\<rparr>
            in (j1\<lparr>status := SCHEDULED\<rparr>, False, True))
      else (j, False, False))"

subsection \<open>The unit and its threads\<close>

text \<open>
  The object is shared by the loop thread, the timer threads and the owner, and no
  lock protects it: the threads interleave between statements. Each thread is
  therefore modelled statement by statement, with a program counter that names the
  source line it is about to execute.

  The loop thread. \<open>L_flag\<close> is the test of the stop flag (line 105). Line 108 reads
  the status (\<open>L_term\<close>), reads it again when it was \<open>FAILED\<close> (\<open>L_reread\<close>) and then
  stores (\<open>L_store\<close> with the value to store); with that the loop has left (\<open>L_exit\<close>).
  \<open>L_running\<close> and \<open>L_completed\<close> are the two tests of the status (lines 111 and 115),
  \<open>L_delay\<close> creates the timer with its delay (lines 118 and 119), \<open>L_start\<close> starts it
  (line 120) and \<open>L_sched\<close> stores \<open>SCHEDULED\<close> (line 121). The logging calls, the
  assignment of the local \<open>terminate\<close> and \<open>sleep(1)\<close> touch nothing shared and are not
  steps of their own.
\<close>

datatype lpc = L_flag | L_term | L_reread | L_store status | L_running | L_completed
  | L_delay | L_start | L_sched | L_exit

text \<open>
  One statement of the loop thread: the object afterwards, the next program counter,
  and whether a timer was started. A loop that has left has no statement.
\<close>

fun loop_stmt :: "rat \<Rightarrow> lpc \<Rightarrow> Job \<Rightarrow> (Job \<times> lpc \<times> bool) option" where
  "loop_stmt now L_flag j = Some (j, if stop_event j then L_term else L_running, False)"
| "loop_stmt now L_term j =
     Some (j, if status j \<noteq> FAILED then L_store TERMINATED else L_reread, False)"
| "loop_stmt now L_reread j = Some (j, L_store (status j), False)"
| "loop_stmt now (L_store v) j = Some (j\<lparr>status := v\<rparr>, L_exit, False)"
| "loop_stmt now L_running j =
     Some (j, if status j \<in> {RUNNING, SCHEDULED} then L_flag else L_completed, False)"
| "loop_stmt now L_completed j =
     Some (j, if status j \<in> {COMPLETED, INITIATED} then L_delay else L_flag, False)"
| "loop_stmt now L_delay j = Some (j\<lparr>job := Some (execute_in_seconds now j)\<rparr>, L_start, False)"
| "loop_stmt now L_start j = Some (j, L_sched, True)"
| "loop_stmt now L_sched j = Some (j\<lparr>status := SCHEDULED\<rparr>, L_flag, False)"
| "loop_stmt now L_exit j = None"

text \<open>
  A wrapper thread. \<open>W_running\<close> is line 79, \<open>W_due\<close> line 82, \<open>W_call\<close> the call of the
  work (line 83); after a return come \<open>W_reset\<close>, \<open>W_count\<close>, \<open>W_test\<close> and \<open>W_stop\<close>
  (lines 84 to 87), after a raise \<open>W_crash\<close> (line 92); then the \<open>finally\<close> block:
  \<open>W_finally\<close> (the test of line 94), \<open>W_fail\<close>, \<open>W_failstop\<close> and \<open>W_raise\<close> (lines 95 to
  97) or \<open>W_complete\<close> (line 99).

  One statement of a wrapper: the object afterwards, the next program counter (none
  when the thread ends) and the exception with which the thread ends, if any. The
  call of the work is not a statement of the wrapper: it ends when the work comes
  back, which is an event of its own below, and the equation for \<open>W_call\<close> is never
  used. The increments of lines 85 and 92 are one statement each: only wrapper
  threads write the two counters, and no two of them ever exist together (lemma
  \<open>one_wrapper_run\<close> below).
\<close>

datatype wpc = W_running | W_due | W_call | W_reset | W_count | W_test | W_stop | W_crash
  | W_finally | W_fail | W_failstop | W_raise | W_complete

fun wrapper_stmt :: "rat \<Rightarrow> wpc \<Rightarrow> Job \<Rightarrow> Job \<times> wpc option \<times> error option" where
  "wrapper_stmt now W_running j = (j\<lparr>status := RUNNING\<rparr>, Some W_due, None)"
| "wrapper_stmt now W_due j =
     (j\<lparr>next_execution_at := now + every_seconds j\<rparr>, Some W_call, None)"
| "wrapper_stmt now W_call j = (j, Some W_call, None)"
| "wrapper_stmt now W_reset j = (j\<lparr>crashed := 0\<rparr>, Some W_count, None)"
| "wrapper_stmt now W_count j = (j\<lparr>runs := runs j + 1\<rparr>, Some W_test, None)"
| "wrapper_stmt now W_test j =
     (j, Some (if every_seconds j = 0 \<or> runs j = max_runs j then W_stop else W_finally), None)"
| "wrapper_stmt now W_stop j = (stop j, Some W_finally, None)"
| "wrapper_stmt now W_crash j = (j\<lparr>crashed := crashed j + 1\<rparr>, Some W_finally, None)"
| "wrapper_stmt now W_finally j =
     (j, Some (if crashed j > max_crashes j then W_fail else W_complete), None)"
| "wrapper_stmt now W_fail j = (j\<lparr>status := FAILED\<rparr>, Some W_failstop, None)"
| "wrapper_stmt now W_failstop j = (stop j, Some W_raise, None)"
| "wrapper_stmt now W_raise j = (j, None, Some (Aborting (crashed j)))"
| "wrapper_stmt now W_complete j = (j\<lparr>status := COMPLETED\<rparr>, None, None)"

text \<open>
  The state of the whole unit: the object, the program counter of the loop thread,
  the number of timers started and not yet fired, the program counters of the
  wrapper threads that exist (threads at the same place are not told apart), and the
  exceptions with which wrapper threads have ended.

  An event is one statement of the loop thread, a timer firing (a wrapper thread
  begins), one statement of a wrapper thread, the work coming back to a wrapper
  that called it, or a call of \<open>stop\<close> or \<open>clear_exception\<close> by the owner. A raise of
  the work changes nothing shared before line 91 appends its record, so the raise
  and that append are one event; a return changes nothing at all. An event that
  cannot happen in a state has no successor. When a timer fires is not constrained
  by its delay. Construction is one step: the loop thread is started one line before
  the list of failure records is assigned, and no timer fires that early.
\<close>

record sys =
  task :: Job
  lpc :: lpc
  armed :: nat
  wrappers :: "wpc list"
  uncaught :: "error list"

datatype event = Loop rat | Fires | Wrapper wpc rat | Finishes outcome | Stop | Clear

definition construct :: "rat \<Rightarrow> int \<Rightarrow> int \<Rightarrow> sys" where
  "construct every max_c max_r =
     \<lparr>task = init every max_c max_r, lpc = L_flag, armed = 0, wrappers = [], uncaught = []\<rparr>"

fun step :: "event \<Rightarrow> sys \<Rightarrow> sys option" where
  "step (Loop now) s =
     (case loop_stmt now (lpc s) (task s) of
        None \<Rightarrow> None
      | Some (j, pc, started) \<Rightarrow>
          Some (s\<lparr>task := j, lpc := pc,
                  armed := (if started then armed s + 1 else armed s)\<rparr>))"
| "step Fires s =
     (if 0 < armed s
      then Some (s\<lparr>armed := armed s - 1, wrappers := W_running # wrappers s\<rparr>)
      else None)"
| "step (Wrapper p now) s =
     (if p \<in> set (wrappers s) \<and> p \<noteq> W_call
      then (case wrapper_stmt now p (task s) of
              (j, next, exn) \<Rightarrow>
                Some (s\<lparr>task := j,
                        wrappers := (case next of None \<Rightarrow> remove1 p (wrappers s)
                                     | Some q \<Rightarrow> q # remove1 p (wrappers s)),
                        uncaught := (case exn of None \<Rightarrow> uncaught s
                                     | Some x \<Rightarrow> x # uncaught s)\<rparr>))
      else None)"
| "step (Finishes oc) s =
     (if W_call \<in> set (wrappers s)
      then Some (case oc of
                   Returns \<Rightarrow> s\<lparr>wrappers := W_reset # remove1 W_call (wrappers s)\<rparr>
                 | Raises tb \<Rightarrow>
                     s\<lparr>task := (task s)\<lparr>exception_list := exception_list (task s) @ [tb]\<rparr>,
                       wrappers := W_crash # remove1 W_call (wrappers s)\<rparr>)
      else None)"
| "step Stop s = Some (s\<lparr>task := stop (task s)\<rparr>)"
| "step Clear s = Some (s\<lparr>task := clear_exception (task s)\<rparr>)"

fun run :: "event list \<Rightarrow> sys \<Rightarrow> sys option" where
  "run [] s = Some s"
| "run (e # es) s = (case step e s of None \<Rightarrow> None | Some s' \<Rightarrow> run es s')"

text \<open>
  What a sequence of events says about the work: the events after the last \<open>Clear\<close>,
  the failure texts of the raises in order, and the numbers of returns and of raises.
\<close>

fun since_clear :: "event list \<Rightarrow> event list" where
  "since_clear [] = []"
| "since_clear (e # es) =
     (if Clear \<in> set es then since_clear es else if e = Clear then es else e # es)"

fun raised :: "event list \<Rightarrow> string list" where
  "raised [] = []"
| "raised (Finishes (Raises tb) # es) = tb # raised es"
| "raised (e # es) = raised es"

definition is_failure :: "event \<Rightarrow> bool" where
  "is_failure e = (case e of Finishes (Raises tb) \<Rightarrow> True | _ \<Rightarrow> False)"

definition is_success :: "event \<Rightarrow> bool" where
  "is_success e = (case e of Finishes Returns \<Rightarrow> True | _ \<Rightarrow> False)"

definition failures :: "event list \<Rightarrow> nat" where
  "failures es = length (filter is_failure es)"

definition successes :: "event list \<Rightarrow> nat" where
  "successes es = length (filter is_success es)"

text \<open>
  Pieces of schedules, each the statements of one thread in source order with nothing
  in between: a pass of the loop that arms a timer (lines 105, 111, 115, 118 to 121),
  the same pass up to the start of the timer (line 120, before line 121), a pass that
  finds the stop flag set and the status not \<open>FAILED\<close> (lines 105 and 108),
  the start of an execution (the timer fires, lines 79 and 82), and the four ways an
  execution goes on when the work comes back: it returned and the wrapper does not
  call \<open>stop\<close>, it returned and the wrapper calls \<open>stop\<close>, it raised within the ceiling,
  it raised beyond the ceiling.
\<close>

definition pass_arms :: "rat \<Rightarrow> event list" where
  "pass_arms now = [Loop now, Loop now, Loop now, Loop now, Loop now, Loop now]"

definition pass_starts :: "rat \<Rightarrow> event list" where
  "pass_starts now = [Loop now, Loop now, Loop now, Loop now, Loop now]"

definition pass_ends :: "rat \<Rightarrow> event list" where
  "pass_ends now = [Loop now, Loop now, Loop now]"

definition starts :: "rat \<Rightarrow> event list" where
  "starts now = [Fires, Wrapper W_running now, Wrapper W_due now]"

definition returns_on :: "rat \<Rightarrow> event list" where
  "returns_on now =
     [Finishes Returns, Wrapper W_reset now, Wrapper W_count now, Wrapper W_test now,
      Wrapper W_finally now, Wrapper W_complete now]"

definition returns_stop :: "rat \<Rightarrow> event list" where
  "returns_stop now =
     [Finishes Returns, Wrapper W_reset now, Wrapper W_count now, Wrapper W_test now,
      Wrapper W_stop now, Wrapper W_finally now, Wrapper W_complete now]"

definition raises_on :: "rat \<Rightarrow> string \<Rightarrow> event list" where
  "raises_on now tb =
     [Finishes (Raises tb), Wrapper W_crash now, Wrapper W_finally now, Wrapper W_complete now]"

definition raises_fail :: "rat \<Rightarrow> string \<Rightarrow> event list" where
  "raises_fail now tb =
     [Finishes (Raises tb), Wrapper W_crash now, Wrapper W_finally now, Wrapper W_fail now,
      Wrapper W_failstop now, Wrapper W_raise now]"

text \<open>
  The statements of one whole pass of the loop, and of one whole execution of the
  wrapper after its timer has fired, in source order, for an object that is in state
  \<open>j\<close> when they begin and that no other thread touches meanwhile.
\<close>

definition pass :: "rat \<Rightarrow> Job \<Rightarrow> event list" where
  "pass now j =
     replicate
       (if stop_event j then (if status j = FAILED then 4 else 3)
        else if status j \<in> {RUNNING, SCHEDULED} then 2
        else if status j \<in> {COMPLETED, INITIATED} then 6 else 3)
       (Loop now)"

definition execution :: "rat \<Rightarrow> outcome \<Rightarrow> Job \<Rightarrow> event list" where
  "execution now oc j =
     [Wrapper W_running now, Wrapper W_due now, Finishes oc] @
     (case oc of
        Returns \<Rightarrow>
          [Wrapper W_reset now, Wrapper W_count now, Wrapper W_test now] @
          (if every_seconds j = 0 \<or> runs j + 1 = max_runs j then [Wrapper W_stop now] else [])
      | Raises tb \<Rightarrow> [Wrapper W_crash now]) @
     [Wrapper W_finally now] @
     (if max_crashes j < (case oc of Returns \<Rightarrow> 0 | Raises tb \<Rightarrow> crashed j + 1)
      then [Wrapper W_fail now, Wrapper W_failstop now, Wrapper W_raise now]
      else [Wrapper W_complete now])"

text \<open>
  Rounds of the undisturbed schedule in which the work returns every time and the
  wrapper has no reason to call \<open>stop\<close>: a pass of the loop arms a timer, the timer
  fires, the work returns, the wrapper ends.
\<close>

fun succeeding_rounds :: "nat \<Rightarrow> rat \<Rightarrow> event list" where
  "succeeding_rounds 0 now = []"
| "succeeding_rounds (Suc n) now =
     succeeding_rounds n now @ pass_arms now @ starts now @ returns_on now"

section \<open>Runs of events\<close>

lemma run_append:
  "run (es @ es') s = (case run es s of None \<Rightarrow> None | Some s' \<Rightarrow> run es' s')"
  by (induction es arbitrary: s) (auto split: option.splits)

lemma run_snoc:
  "run (es @ [e]) s0 = Some s \<longleftrightarrow> (\<exists>s1. run es s0 = Some s1 \<and> step e s1 = Some s)"
  by (auto simp: run_append split: option.splits)

lemma run_invariant:
  assumes "run es s0 = Some s" and "P s0"
    and "\<And>e s s'. P s \<Longrightarrow> step e s = Some s' \<Longrightarrow> P s'"
  shows "P s"
  using assms(1,2)
proof (induction es arbitrary: s0)
  case Nil
  then show ?case by simp
next
  case (Cons e es)
  then show ?case by (auto split: option.splits intro: assms(3))
qed

text \<open>What one statement of either thread does to the fields that matter.\<close>

lemma loop_stmt_cases [consumes 1, case_names flag_set flag_unset term_other term_failed
    reread store running_yes running_no completed_yes completed_no delay start sched]:
  assumes "loop_stmt now pc j = Some (j', pc', started)"
  obtains
    (flag_set) "pc = L_flag" "stop_event j" "j' = j" "pc' = L_term" "\<not> started"
  | (flag_unset) "pc = L_flag" "\<not> stop_event j" "j' = j" "pc' = L_running" "\<not> started"
  | (term_other) "pc = L_term" "status j \<noteq> FAILED" "j' = j" "pc' = L_store TERMINATED"
      "\<not> started"
  | (term_failed) "pc = L_term" "status j = FAILED" "j' = j" "pc' = L_reread" "\<not> started"
  | (reread) "pc = L_reread" "j' = j" "pc' = L_store (status j)" "\<not> started"
  | (store) v where "pc = L_store v" "j' = j\<lparr>status := v\<rparr>" "pc' = L_exit" "\<not> started"
  | (running_yes) "pc = L_running" "status j = RUNNING \<or> status j = SCHEDULED" "j' = j"
      "pc' = L_flag" "\<not> started"
  | (running_no) "pc = L_running" "status j \<noteq> RUNNING" "status j \<noteq> SCHEDULED" "j' = j"
      "pc' = L_completed" "\<not> started"
  | (completed_yes) "pc = L_completed" "status j = COMPLETED \<or> status j = INITIATED" "j' = j"
      "pc' = L_delay" "\<not> started"
  | (completed_no) "pc = L_completed" "status j \<noteq> COMPLETED" "status j \<noteq> INITIATED" "j' = j"
      "pc' = L_flag" "\<not> started"
  | (delay) "pc = L_delay" "j' = j\<lparr>job := Some (execute_in_seconds now j)\<rparr>" "pc' = L_start"
      "\<not> started"
  | (start) "pc = L_start" "j' = j" "pc' = L_sched" "started"
  | (sched) "pc = L_sched" "j' = j\<lparr>status := SCHEDULED\<rparr>" "pc' = L_flag" "\<not> started"
proof (cases pc)
  case L_flag
  with assms show ?thesis
    by (cases "stop_event j") (auto intro: flag_set flag_unset)
next
  case L_term
  with assms show ?thesis
    by (cases "status j = FAILED") (auto intro: term_other term_failed)
next
  case L_reread
  with assms show ?thesis by (auto intro: reread)
next
  case (L_store v)
  with assms show ?thesis by (auto intro: store)
next
  case L_running
  with assms show ?thesis
    by (cases "status j = RUNNING \<or> status j = SCHEDULED")
      (auto intro: running_yes running_no)
next
  case L_completed
  with assms show ?thesis
    by (cases "status j = COMPLETED \<or> status j = INITIATED")
      (auto intro: completed_yes completed_no)
next
  case L_delay
  with assms show ?thesis by (auto intro: delay)
next
  case L_start
  with assms show ?thesis by (auto intro: start)
next
  case L_sched
  with assms show ?thesis by (auto intro: sched)
next
  case L_exit
  with assms show ?thesis by simp
qed

lemma step_cases [consumes 1, case_names loop fires wrapper returns raises stop clear]:
  assumes "step e s = Some s'"
  obtains
    (loop) now j pc started where "e = Loop now"
      "loop_stmt now (lpc s) (task s) = Some (j, pc, started)"
      "s' = s\<lparr>task := j, lpc := pc, armed := (if started then armed s + 1 else armed s)\<rparr>"
  | (fires) "e = Fires" "0 < armed s"
      "s' = s\<lparr>armed := armed s - 1, wrappers := W_running # wrappers s\<rparr>"
  | (wrapper) p now j nxt exn where "e = Wrapper p now" "p \<in> set (wrappers s)" "p \<noteq> W_call"
      "wrapper_stmt now p (task s) = (j, nxt, exn)"
      "s' = s\<lparr>task := j,
               wrappers := (case nxt of None \<Rightarrow> remove1 p (wrappers s)
                            | Some q \<Rightarrow> q # remove1 p (wrappers s)),
               uncaught := (case exn of None \<Rightarrow> uncaught s | Some x \<Rightarrow> x # uncaught s)\<rparr>"
  | (returns) "e = Finishes Returns" "W_call \<in> set (wrappers s)"
      "s' = s\<lparr>wrappers := W_reset # remove1 W_call (wrappers s)\<rparr>"
  | (raises) tb where "e = Finishes (Raises tb)" "W_call \<in> set (wrappers s)"
      "s' = s\<lparr>task := (task s)\<lparr>exception_list := exception_list (task s) @ [tb]\<rparr>,
               wrappers := W_crash # remove1 W_call (wrappers s)\<rparr>"
  | (stop) "e = Stop" "s' = s\<lparr>task := (task s)\<lparr>stop_event := True\<rparr>\<rparr>"
  | (clear) "e = Clear" "s' = s\<lparr>task := (task s)\<lparr>exception_list := []\<rparr>\<rparr>"
proof (cases e)
  case (Loop now)
  with assms obtain j pc started where
    a: "loop_stmt now (lpc s) (task s) = Some (j, pc, started)" and
    b: "s' = s\<lparr>task := j, lpc := pc, armed := (if started then armed s + 1 else armed s)\<rparr>"
    by (auto split: option.splits)
  show ?thesis by (rule loop[OF Loop a b])
next
  case Fires
  with assms have "0 < armed s"
    "s' = s\<lparr>armed := armed s - 1, wrappers := W_running # wrappers s\<rparr>"
    by (auto split: if_splits)
  with Fires show ?thesis by (rule fires)
next
  case (Wrapper p now)
  with assms have a: "p \<in> set (wrappers s)" "p \<noteq> W_call"
    by (auto split: if_splits)
  obtain j nxt exn where w: "wrapper_stmt now p (task s) = (j, nxt, exn)"
    by (cases "wrapper_stmt now p (task s)") auto
  with assms Wrapper a have
    b: "s' = s\<lparr>task := j,
               wrappers := (case nxt of None \<Rightarrow> remove1 p (wrappers s)
                            | Some q \<Rightarrow> q # remove1 p (wrappers s)),
               uncaught := (case exn of None \<Rightarrow> uncaught s | Some x \<Rightarrow> x # uncaught s)\<rparr>"
    by simp
  show ?thesis by (rule wrapper[OF Wrapper a w b])
next
  case (Finishes oc)
  show ?thesis
  proof (cases oc)
    case Returns
    with Finishes assms have "W_call \<in> set (wrappers s)"
      "s' = s\<lparr>wrappers := W_reset # remove1 W_call (wrappers s)\<rparr>"
      by (auto split: if_splits)
    with Finishes Returns show ?thesis by (intro returns) simp_all
  next
    case (Raises tb)
    with Finishes assms have "W_call \<in> set (wrappers s)"
      "s' = s\<lparr>task := (task s)\<lparr>exception_list := exception_list (task s) @ [tb]\<rparr>,
               wrappers := W_crash # remove1 W_call (wrappers s)\<rparr>"
      by (auto split: if_splits)
    with Finishes Raises show ?thesis by (intro raises[of tb]) simp_all
  qed
next
  case Stop
  with assms show ?thesis by (intro stop) (auto simp: stop_def)
next
  case Clear
  with assms show ?thesis by (intro clear) (auto simp: clear_exception_def)
qed

lemma loop_stmt_frame:
  assumes "loop_stmt now pc j = Some (j', pc', started)"
  shows "every_seconds j' = every_seconds j \<and> max_crashes j' = max_crashes j \<and>
         max_runs j' = max_runs j \<and> exception_list j' = exception_list j \<and>
         runs j' = runs j \<and> crashed j' = crashed j \<and> stop_event j' = stop_event j"
  using assms by (cases rule: loop_stmt_cases) auto

lemma wrapper_stmt_frame:
  assumes "wrapper_stmt now p j = (j', nxt, exn)"
  shows "every_seconds j' = every_seconds j \<and> max_crashes j' = max_crashes j \<and>
         max_runs j' = max_runs j \<and> exception_list j' = exception_list j"
  using assms by (cases p) (auto simp: stop_def)

lemma parameters_step:
  assumes "step e s = Some s'"
  shows "every_seconds (task s') = every_seconds (task s) \<and>
         max_crashes (task s') = max_crashes (task s) \<and>
         max_runs (task s') = max_runs (task s)"
  using assms
  by (cases rule: step_cases) (auto dest: loop_stmt_frame wrapper_stmt_frame)

lemma parameters_run:
  assumes "run es (construct every max_c max_r) = Some s"
  shows "every_seconds (task s) = every \<and> max_crashes (task s) = max_c \<and>
         max_runs (task s) = max_r"
proof -
  have "every_seconds (task (construct every max_c max_r)) = every \<and>
        max_crashes (task (construct every max_c max_r)) = max_c \<and>
        max_runs (task (construct every max_c max_r)) = max_r"
    by (simp add: construct_def init_def)
  with assms show ?thesis
    by (rule run_invariant) (use parameters_step in \<open>metis\<close>)
qed

lemma exception_list_step:
  assumes "step e s = Some s'"
  shows "exception_list (task s') =
           (case e of Clear \<Rightarrow> []
                    | Finishes (Raises tb) \<Rightarrow> exception_list (task s) @ [tb]
                    | _ \<Rightarrow> exception_list (task s))"
  using assms
  by (cases rule: step_cases) (auto dest: loop_stmt_frame wrapper_stmt_frame)

lemma since_clear_id: "Clear \<notin> set es \<Longrightarrow> since_clear es = es"
  by (induction es) auto

lemma length_raised: "length (raised es) = failures es"
  by (induction es rule: raised.induct) (simp_all add: failures_def is_failure_def)

lemma exception_list_run:
  assumes "run es s0 = Some s"
  shows "exception_list (task s) =
           (if Clear \<in> set es then [] else exception_list (task s0)) @ raised (since_clear es)"
  using assms
proof (induction es arbitrary: s0)
  case Nil
  then show ?case by simp
next
  case (Cons e es)
  then obtain s1 where s1: "step e s0 = Some s1" and r: "run es s1 = Some s"
    by (auto split: option.splits)
  show ?case
  proof (cases "Clear \<in> set es")
    case True
    with Cons.IH[OF r] show ?thesis by simp
  next
    case False
    show ?thesis
    proof (cases e)
      case (Finishes oc)
      with False Cons.IH[OF r] exception_list_step[OF s1] show ?thesis
        by (cases oc) (simp_all add: since_clear_id)
    qed (use False Cons.IH[OF r] exception_list_step[OF s1] in \<open>simp_all add: since_clear_id\<close>)
  qed
qed

lemma wrapper_stmt_cases [consumes 2, case_names running due reset count test_stop test_on
    stop crash finally_fail finally_on fail failstop raise complete]:
  assumes "wrapper_stmt now p j = (j', nxt, exn)" and "p \<noteq> W_call"
  obtains
    (running) "p = W_running" "j' = j\<lparr>status := RUNNING\<rparr>" "nxt = Some W_due" "exn = None"
  | (due) "p = W_due" "j' = j\<lparr>next_execution_at := now + every_seconds j\<rparr>"
      "nxt = Some W_call" "exn = None"
  | (reset) "p = W_reset" "j' = j\<lparr>crashed := 0\<rparr>" "nxt = Some W_count" "exn = None"
  | (count) "p = W_count" "j' = j\<lparr>runs := runs j + 1\<rparr>" "nxt = Some W_test" "exn = None"
  | (test_stop) "p = W_test" "every_seconds j = 0 \<or> runs j = max_runs j" "j' = j"
      "nxt = Some W_stop" "exn = None"
  | (test_on) "p = W_test" "every_seconds j \<noteq> 0" "runs j \<noteq> max_runs j" "j' = j"
      "nxt = Some W_finally" "exn = None"
  | (stop) "p = W_stop" "j' = j\<lparr>stop_event := True\<rparr>" "nxt = Some W_finally" "exn = None"
  | (crash) "p = W_crash" "j' = j\<lparr>crashed := crashed j + 1\<rparr>" "nxt = Some W_finally"
      "exn = None"
  | (finally_fail) "p = W_finally" "max_crashes j < crashed j" "j' = j" "nxt = Some W_fail"
      "exn = None"
  | (finally_on) "p = W_finally" "crashed j \<le> max_crashes j" "j' = j" "nxt = Some W_complete"
      "exn = None"
  | (fail) "p = W_fail" "j' = j\<lparr>status := FAILED\<rparr>" "nxt = Some W_failstop" "exn = None"
  | (failstop) "p = W_failstop" "j' = j\<lparr>stop_event := True\<rparr>" "nxt = Some W_raise"
      "exn = None"
  | (raise) "p = W_raise" "j' = j" "nxt = None" "exn = Some (Aborting (crashed j))"
  | (complete) "p = W_complete" "j' = j\<lparr>status := COMPLETED\<rparr>" "nxt = None" "exn = None"
proof (cases p)
  case W_running
  with assms show ?thesis by (auto intro: running)
next
  case W_due
  with assms show ?thesis by (auto intro: due)
next
  case W_call
  with assms show ?thesis by simp
next
  case W_reset
  with assms show ?thesis by (auto intro: reset)
next
  case W_count
  with assms show ?thesis by (auto intro: count)
next
  case W_test
  with assms show ?thesis
    by (cases "every_seconds j = 0 \<or> runs j = max_runs j") (auto intro: test_stop test_on)
next
  case W_stop
  with assms show ?thesis by (auto simp: stop_def intro: stop)
next
  case W_crash
  with assms show ?thesis by (auto intro: crash)
next
  case W_finally
  with assms show ?thesis
    by (cases "max_crashes j < crashed j") (auto intro: finally_fail finally_on)
next
  case W_fail
  with assms show ?thesis by (auto intro: fail)
next
  case W_failstop
  with assms show ?thesis by (auto simp: stop_def intro: failstop)
next
  case W_raise
  with assms show ?thesis by (auto intro: raise)
next
  case W_complete
  with assms show ?thesis by (auto intro: complete)
qed

lemma count_list_remove1:
  "p \<in> set ws \<Longrightarrow> count_list (remove1 p ws) q = count_list ws q - (if p = q then 1 else 0)"
  by (induction ws) auto

lemma count_list_pos: "p \<in> set ws \<Longrightarrow> 0 < count_list ws p"
  by (induction ws) auto

lemma failures_snoc: "failures (es @ [e]) = failures es + (if is_failure e then 1 else 0)"
  by (simp add: failures_def)

lemma successes_snoc: "successes (es @ [e]) = successes es + (if is_success e then 1 else 0)"
  by (simp add: successes_def)

text \<open>The crash counter never runs ahead of the raises: it and the wrappers that are
  about to increment it together count at most the raises so far.\<close>

lemma crash_count_run:
  assumes "run es (construct every K N) = Some s"
  shows "0 \<le> crashed (task s) \<and>
         crashed (task s) + int (count_list (wrappers s) W_crash) \<le> int (failures es)"
  using assms
proof (induction es arbitrary: s rule: rev_induct)
  case Nil
  then show ?case by (auto simp: failures_def construct_def init_def)
next
  case (snoc e es)
  from snoc.prems obtain s1 where r: "run es (construct every K N) = Some s1"
    and st: "step e s1 = Some s"
    by (auto simp: run_snoc)
  note ih = snoc.IH[OF r]
  from st show ?case
  proof (cases rule: step_cases)
    case (loop now j pc started)
    with ih loop_stmt_frame[OF loop(2)] show ?thesis
      by (simp add: failures_snoc is_failure_def)
  next
    case fires
    with ih show ?thesis by (simp add: failures_snoc is_failure_def)
  next
    case (wrapper p now j nxt exn)
    from wrapper(4,3) show ?thesis
      by (cases rule: wrapper_stmt_cases)
        (use ih wrapper(1,2,5) count_list_pos[OF wrapper(2)] in
          \<open>auto simp: failures_snoc is_failure_def count_list_remove1\<close>)
  next
    case returns
    with ih show ?thesis
      by (simp add: failures_snoc is_failure_def count_list_remove1)
  next
    case (raises tb)
    with ih show ?thesis
      by (simp add: failures_snoc is_failure_def count_list_remove1)
  next
    case stop
    with ih show ?thesis by (simp add: failures_snoc is_failure_def)
  next
    case clear
    with ih show ?thesis by (simp add: failures_snoc is_failure_def)
  qed
qed

text \<open>At most one timer is pending or one wrapper thread exists at any time, and
  while there is one the loop is not about to start another timer.\<close>

lemma one_wrapper_run:
  assumes "run es (construct every K N) = Some s"
  shows "armed s + length (wrappers s) \<le> 1 \<and>
         (armed s + length (wrappers s) = 1 \<longrightarrow>
            lpc s \<noteq> L_delay \<and> lpc s \<noteq> L_start \<and>
            (lpc s = L_flag \<or> lpc s = L_running \<or> lpc s = L_completed \<longrightarrow>
               status (task s) = SCHEDULED \<or> status (task s) = RUNNING \<or>
               status (task s) = FAILED))"
  using assms
proof (induction es arbitrary: s rule: rev_induct)
  case Nil
  then show ?case by (auto simp: construct_def init_def)
next
  case (snoc e es)
  from snoc.prems obtain s1 where r: "run es (construct every K N) = Some s1"
    and st: "step e s1 = Some s"
    by (auto simp: run_snoc)
  note ih = snoc.IH[OF r]
  from ih have "length (wrappers s1) \<le> 1" by simp
  then have "wrappers s1 = [] \<or> (\<exists>p. wrappers s1 = [p])"
    by (cases "wrappers s1") auto
  with ih consider
    (idle) "armed s1 = 0" "wrappers s1 = []"
  | (pending) "armed s1 = 1" "wrappers s1 = []"
  | (active) q where "armed s1 = 0" "wrappers s1 = [q]"
    by (cases "armed s1") auto
  then show ?case
  proof cases
    case idle
    from st show ?thesis
    proof (cases rule: step_cases)
      case (loop now j pc started)
      from loop(2) show ?thesis
        by (cases rule: loop_stmt_cases) (use idle loop(3) in auto)
    qed (use idle in auto)
  next
    case pending
    from st show ?thesis
    proof (cases rule: step_cases)
      case (loop now j pc started)
      from loop(2) show ?thesis
        by (cases rule: loop_stmt_cases) (use ih pending loop(3) in auto)
    qed (use ih pending in auto)
  next
    case (active q)
    from st show ?thesis
    proof (cases rule: step_cases)
      case (loop now j pc started)
      from loop(2) show ?thesis
        by (cases rule: loop_stmt_cases) (use ih active loop(3) in auto)
    next
      case (wrapper p now j nxt exn)
      from wrapper(4,3) show ?thesis
        by (cases rule: wrapper_stmt_cases) (use ih active wrapper(2,5) in auto)
    qed (use ih active in auto)
  qed
qed

text \<open>While the raises have not passed a ceiling that is not negative, no wrapper
  takes the failing branch of the \<open>finally\<close> block, and the status is never \<open>FAILED\<close>.\<close>

lemma within_ceiling_run:
  assumes "run es (construct every K N) = Some s" and "0 \<le> K" and "int (failures es) \<le> K"
  shows "status (task s) \<noteq> FAILED \<and> lpc s \<noteq> L_reread \<and> lpc s \<noteq> L_store FAILED \<and>
         W_fail \<notin> set (wrappers s) \<and> W_failstop \<notin> set (wrappers s) \<and>
         W_raise \<notin> set (wrappers s)"
  using assms(1,3)
proof (induction es arbitrary: s rule: rev_induct)
  case Nil
  then show ?case by (auto simp: construct_def init_def)
next
  case (snoc e es)
  from snoc.prems(1) obtain s1 where r: "run es (construct every K N) = Some s1"
    and st: "step e s1 = Some s"
    by (auto simp: run_snoc)
  from snoc.prems(2) have f: "int (failures es) \<le> K"
    by (simp add: failures_snoc split: if_splits)
  note ih = snoc.IH[OF r f]
  have k: "max_crashes (task s1) = K" using parameters_run[OF r] by simp
  have c: "crashed (task s1) \<le> K" using crash_count_run[OF r] f by simp
  from st show ?case
  proof (cases rule: step_cases)
    case (loop now j pc started)
    from loop(2) show ?thesis
      by (cases rule: loop_stmt_cases) (use ih loop(3) in auto)
  next
    case (wrapper p now j nxt exn)
    from wrapper(4,3) show ?thesis
      by (cases rule: wrapper_stmt_cases)
        (use ih k c wrapper(2,5) in \<open>auto dest: notin_set_remove1\<close>)
  qed (use ih in \<open>auto dest: notin_set_remove1\<close>)
qed

text \<open>While moreover no execution has returned and the owner has not called \<open>stop\<close>,
  nobody has set the stop flag, so the loop has not left and the status is not
  \<open>TERMINATED\<close> either.\<close>

lemma unrequested_run:
  assumes "run es (construct every K N) = Some s" and "Stop \<notin> set es"
    and "successes es = 0" and "0 \<le> K" and "int (failures es) \<le> K"
  shows "\<not> stop_event (task s) \<and> status (task s) \<noteq> TERMINATED \<and>
         lpc s \<noteq> L_term \<and> lpc s \<noteq> L_store TERMINATED \<and> lpc s \<noteq> L_exit \<and>
         (\<forall>v. lpc s \<noteq> L_store v) \<and>
         W_reset \<notin> set (wrappers s) \<and> W_count \<notin> set (wrappers s) \<and>
         W_test \<notin> set (wrappers s) \<and> W_stop \<notin> set (wrappers s)"
  using assms(1,2,3,5)
proof (induction es arbitrary: s rule: rev_induct)
  case Nil
  then show ?case by (auto simp: construct_def init_def)
next
  case (snoc e es)
  from snoc.prems(1) obtain s1 where r: "run es (construct every K N) = Some s1"
    and st: "step e s1 = Some s"
    by (auto simp: run_snoc)
  from snoc.prems(2) have ns: "Stop \<notin> set es" and ne: "e \<noteq> Stop" by auto
  from snoc.prems(3) have z: "successes es = 0" and nsu: "\<not> is_success e"
    by (auto simp: successes_snoc split: if_splits)
  from snoc.prems(4) have f: "int (failures es) \<le> K"
    by (simp add: failures_snoc split: if_splits)
  note ih = snoc.IH[OF r ns z f]
  note w = within_ceiling_run[OF r assms(4) f]
  from st show ?case
  proof (cases rule: step_cases)
    case (loop now j pc started)
    from loop(2) show ?thesis
      by (cases rule: loop_stmt_cases) (use ih w loop(3) in auto)
  next
    case (wrapper p now j nxt exn)
    from wrapper(4,3) show ?thesis
      by (cases rule: wrapper_stmt_cases)
        (use ih w wrapper(2,5) in \<open>auto dest: notin_set_remove1\<close>)
  qed (use ih ne nsu in \<open>auto simp: is_success_def dest: notin_set_remove1\<close>)
qed

text \<open>With a period other than 0, raises within the ceiling and no \<open>stop\<close> by the owner,
  only a wrapper that found the counter of successful runs equal to \<open>max_runs\<close> sets
  the stop flag, and the counter never decreases.\<close>

lemma not_before_run:
  assumes "run es (construct every K N) = Some s" and "every \<noteq> 0" and "0 \<le> K"
    and "Stop \<notin> set es" and "int (failures es) \<le> K"
  shows "(stop_event (task s) \<longrightarrow> N \<le> runs (task s)) \<and>
         (W_stop \<in> set (wrappers s) \<longrightarrow> N \<le> runs (task s))"
  using assms(1,4,5)
proof (induction es arbitrary: s rule: rev_induct)
  case Nil
  then show ?case by (auto simp: construct_def init_def)
next
  case (snoc e es)
  from snoc.prems(1) obtain s1 where r: "run es (construct every K N) = Some s1"
    and st: "step e s1 = Some s"
    by (auto simp: run_snoc)
  from snoc.prems(2) have ns: "Stop \<notin> set es" and ne: "e \<noteq> Stop" by auto
  from snoc.prems(3) have f: "int (failures es) \<le> K"
    by (simp add: failures_snoc split: if_splits)
  note ih = snoc.IH[OF r ns f]
  note w = within_ceiling_run[OF r assms(3) f]
  have p: "every_seconds (task s1) \<noteq> 0" "max_runs (task s1) = N"
    using parameters_run[OF r] assms(2) by simp_all
  from st show ?case
  proof (cases rule: step_cases)
    case (loop now j pc started)
    with ih loop_stmt_frame[OF loop(2)] show ?thesis by simp
  next
    case (wrapper p now j nxt exn)
    from wrapper(4,3) show ?thesis
      by (cases rule: wrapper_stmt_cases)
        (use ih w p wrapper(2,5) in \<open>auto dest: notin_set_remove1\<close>)
  qed (use ih ne in \<open>auto dest: notin_set_remove1\<close>)
qed

section \<open>Statements and functions\<close>

lemmas unit_defs = loop_body_def wrapper_begin_def wrapper_end_def wrapper_try_def
  wrapper_except_def wrapper_finally_def stop_def clear_exception_def Let_def

lemma wrapper_returns:
  "wrapper now Returns j =
     (j\<lparr>status := (if max_crashes j < 0 then FAILED else COMPLETED),
        next_execution_at := now + every_seconds j, crashed := 0, runs := runs j + 1,
        stop_event := (stop_event j \<or> every_seconds j = 0 \<or> runs j + 1 = max_runs j
                        \<or> max_crashes j < 0)\<rparr>,
      if max_crashes j < 0 then Some (Aborting 0) else None)"
  by (simp add: wrapper_def unit_defs)

lemma wrapper_raises:
  "wrapper now (Raises tb) j =
     (j\<lparr>status := (if max_crashes j < crashed j + 1 then FAILED else COMPLETED),
        next_execution_at := now + every_seconds j,
        exception_list := exception_list j @ [tb], crashed := crashed j + 1,
        stop_event := (stop_event j \<or> max_crashes j < crashed j + 1)\<rparr>,
      if max_crashes j < crashed j + 1 then Some (Aborting (crashed j + 1)) else None)"
  by (simp add: wrapper_def unit_defs)

text \<open>The statements of a wrapper thread, run one after the other with nothing in
  between, do to the object what the function \<open>wrapper\<close> does.\<close>

lemma execution_returns:
  assumes "W_running \<in> set (wrappers s)"
  shows "run (execution now Returns (task s)) s =
           Some (s\<lparr>task := fst (wrapper now Returns (task s)),
                   wrappers := remove1 W_running (wrappers s),
                   uncaught := (case snd (wrapper now Returns (task s)) of
                                  None \<Rightarrow> uncaught s | Some x \<Rightarrow> x # uncaught s)\<rparr>)"
  using assms by (simp add: execution_def wrapper_returns stop_def)

lemma execution_raises:
  assumes "W_running \<in> set (wrappers s)"
  shows "run (execution now (Raises tb) (task s)) s =
           Some (s\<lparr>task := fst (wrapper now (Raises tb) (task s)),
                   wrappers := remove1 W_running (wrappers s),
                   uncaught := (case snd (wrapper now (Raises tb) (task s)) of
                                  None \<Rightarrow> uncaught s | Some x \<Rightarrow> x # uncaught s)\<rparr>)"
  using assms by (simp add: execution_def wrapper_raises stop_def)

lemma execution_wrapper:
  assumes "W_running \<in> set (wrappers s)"
  shows "run (execution now oc (task s)) s =
           Some (s\<lparr>task := fst (wrapper now oc (task s)),
                   wrappers := remove1 W_running (wrappers s),
                   uncaught := (case snd (wrapper now oc (task s)) of
                                  None \<Rightarrow> uncaught s | Some x \<Rightarrow> x # uncaught s)\<rparr>)"
  using assms by (cases oc) (simp_all only: execution_returns execution_raises)

text \<open>The statements of one pass of the loop, run one after the other with nothing in
  between, do to the object what the function \<open>loop_body\<close> does.\<close>

lemma pass_loop_body:
  assumes "lpc s = L_flag"
  shows "run (pass now (task s)) s =
           Some (s\<lparr>task := fst (loop_body now (task s)),
                   lpc := (if fst (snd (loop_body now (task s))) then L_exit else L_flag),
                   armed := (if snd (snd (loop_body now (task s))) then armed s + 1
                             else armed s)\<rparr>)"
  using assms
  by (simp add: pass_def loop_body_def Let_def numeral_eq_Suc)

section \<open>Undisturbed schedules\<close>

lemmas piece_defs = pass_arms_def pass_starts_def pass_ends_def starts_def returns_on_def
  returns_stop_def raises_on_def raises_fail_def

text \<open>One round of the undisturbed schedule, from a unit that is between executions
  with its loop about to test the flag.\<close>

lemma succeeding_round:
  assumes "lpc s = L_flag" and "armed s = 0" and "wrappers s = []"
    and "\<not> stop_event (task s)"
    and "status (task s) = COMPLETED \<or> status (task s) = INITIATED"
    and "every_seconds (task s) \<noteq> 0" and "0 \<le> max_crashes (task s)"
    and "runs (task s) + 1 \<noteq> max_runs (task s)"
  shows "\<exists>s'. run (pass_arms now @ starts now @ returns_on now) s = Some s' \<and>
           lpc s' = L_flag \<and> armed s' = 0 \<and> wrappers s' = [] \<and> \<not> stop_event (task s') \<and>
           status (task s') = COMPLETED \<and> runs (task s') = runs (task s) + 1 \<and>
           every_seconds (task s') = every_seconds (task s) \<and>
           max_crashes (task s') = max_crashes (task s) \<and>
           max_runs (task s') = max_runs (task s)"
  using assms by (auto simp: piece_defs)

lemma last_round:
  assumes "lpc s = L_flag" and "armed s = 0" and "wrappers s = []"
    and "\<not> stop_event (task s)"
    and "status (task s) = COMPLETED \<or> status (task s) = INITIATED"
    and "0 \<le> max_crashes (task s)"
    and "every_seconds (task s) = 0 \<or> runs (task s) + 1 = max_runs (task s)"
  shows "\<exists>s'. run (pass_arms now @ starts now @ returns_stop now @ pass_ends now) s = Some s' \<and>
           lpc s' = L_exit \<and> armed s' = 0 \<and> wrappers s' = [] \<and> stop_event (task s') \<and>
           status (task s') = TERMINATED \<and> runs (task s') = runs (task s) + 1"
  using assms by (auto simp: piece_defs stop_def)

lemma succeeding_rounds_run:
  assumes "every \<noteq> 0" and "0 \<le> K" and "int n < N"
  shows "\<exists>s. run (succeeding_rounds n now) (construct every K N) = Some s \<and>
           lpc s = L_flag \<and> armed s = 0 \<and> wrappers s = [] \<and> \<not> stop_event (task s) \<and>
           (status (task s) = COMPLETED \<or> status (task s) = INITIATED) \<and>
           runs (task s) = int n \<and> every_seconds (task s) = every \<and>
           max_crashes (task s) = K \<and> max_runs (task s) = N"
  using assms(3)
proof (induction n)
  case 0
  then show ?case by (simp add: construct_def init_def)
next
  case (Suc n)
  then obtain s where s: "run (succeeding_rounds n now) (construct every K N) = Some s"
    "lpc s = L_flag" "armed s = 0" "wrappers s = []" "\<not> stop_event (task s)"
    "status (task s) = COMPLETED \<or> status (task s) = INITIATED"
    and p: "runs (task s) = int n" "every_seconds (task s) = every"
    "max_crashes (task s) = K" "max_runs (task s) = N"
    by auto
  have a: "every_seconds (task s) \<noteq> 0" "0 \<le> max_crashes (task s)"
    "runs (task s) + 1 \<noteq> max_runs (task s)"
    using p assms(1,2) Suc.prems by simp_all
  from succeeding_round[OF s(2-6) a, of now] obtain s' where
    s': "run (pass_arms now @ starts now @ returns_on now) s = Some s'"
    "lpc s' = L_flag" "armed s' = 0" "wrappers s' = []" "\<not> stop_event (task s')"
    "status (task s') = COMPLETED" "runs (task s') = runs (task s) + 1"
    "every_seconds (task s') = every_seconds (task s)"
    "max_crashes (task s') = max_crashes (task s)"
    "max_runs (task s') = max_runs (task s)"
    by blast
  have "run (succeeding_rounds (Suc n) now) (construct every K N) = Some s'"
    using s(1) s'(1) by (simp add: run_append)
  with s' p show ?case by simp
qed

lemma exactly_max_runs:
  assumes "1 \<le> N" and "every \<noteq> 0" and "0 \<le> K"
  shows "\<exists>s. run (succeeding_rounds (nat N - 1) now @ pass_arms now @ starts now @
                  returns_stop now @ pass_ends now) (construct every K N) = Some s \<and>
           runs (task s) = N \<and> status (task s) = TERMINATED \<and> lpc s = L_exit \<and>
           armed s = 0 \<and> wrappers s = []"
proof -
  have "int (nat N - 1) < N" using assms(1) by simp
  from succeeding_rounds_run[OF assms(2,3) this, of now] obtain s where
    s: "run (succeeding_rounds (nat N - 1) now) (construct every K N) = Some s"
    "lpc s = L_flag" "armed s = 0" "wrappers s = []" "\<not> stop_event (task s)"
    "status (task s) = COMPLETED \<or> status (task s) = INITIATED"
    and p: "runs (task s) = int (nat N - 1)" "every_seconds (task s) = every"
    "max_crashes (task s) = K" "max_runs (task s) = N"
    by auto
  have a: "0 \<le> max_crashes (task s)"
    "every_seconds (task s) = 0 \<or> runs (task s) + 1 = max_runs (task s)"
    using p assms(1,3) by simp_all
  from last_round[OF s(2-6) a, of now] obtain s' where
    s': "run (pass_arms now @ starts now @ returns_stop now @ pass_ends now) s = Some s'"
    "lpc s' = L_exit" "armed s' = 0" "wrappers s' = []"
    "status (task s') = TERMINATED" "runs (task s') = runs (task s) + 1"
    by blast
  have "run (succeeding_rounds (nat N - 1) now @ pass_arms now @ starts now @
             returns_stop now @ pass_ends now) (construct every K N) = Some s'"
    using s(1) s'(1) by (simp add: run_append)
  moreover have "runs (task s') = N" using s'(6) p(1) assms(1) by simp
  ultimately show ?thesis using s' by blast
qed

lemma one_shot_round:
  assumes "0 \<le> K"
  shows "\<exists>s. run (pass_arms t @ starts now @ returns_stop now @ pass_ends t')
                (construct 0 K N) = Some s \<and>
           status (task s) = TERMINATED \<and> runs (task s) = 1 \<and> lpc s = L_exit \<and>
           armed s = 0 \<and> wrappers s = []"
  using assms by (auto simp: piece_defs construct_def init_def stop_def)

section \<open>The wrapper and the accessors, one call at a time\<close>

text \<open>
  Claim C4. In every execution of the wrapper, from any state of the object: when the
  work returns, the consecutive crash counter is 0 afterwards and the counter of
  successful runs is one more than before; when the work raises, the crash counter is
  one more than before and the counter of successful runs is what it was.
\<close>

theorem wrapper_counters:
  "crashed (fst (wrapper now Returns j)) = 0 \<and>
   runs (fst (wrapper now Returns j)) = runs j + 1 \<and>
   crashed (fst (wrapper now (Raises tb) j)) = crashed j + 1 \<and>
   runs (fst (wrapper now (Raises tb) j)) = runs j"
  by (simp add: wrapper_returns wrapper_raises)

text \<open>
  Claim C8. \<open>clear_exception\<close> empties the list of failure records, so that the accessor
  reports none, and leaves the status, both counters and every other attribute as they
  were; as an event of the unit it changes nothing but the object.
\<close>

theorem clear_exception_frame:
  "exception_list (clear_exception j) = [] \<and>
   exception (clear_exception j) = None \<and>
   status (clear_exception j) = status j \<and>
   crashed (clear_exception j) = crashed j \<and>
   runs (clear_exception j) = runs j \<and>
   stop_event (clear_exception j) = stop_event j \<and>
   next_execution_at (clear_exception j) = next_execution_at j \<and>
   job (clear_exception j) = job j \<and>
   every_seconds (clear_exception j) = every_seconds j \<and>
   max_crashes (clear_exception j) = max_crashes j \<and>
   max_runs (clear_exception j) = max_runs j \<and>
   step Clear s = Some (s\<lparr>task := clear_exception (task s)\<rparr>)"
  by (simp add: clear_exception_def exception_def)

text \<open>
  Claim C10. At the end of the wrapper the status is \<open>FAILED\<close> and the exception is
  raised when the crash counter exceeds the ceiling, and the status is \<open>COMPLETED\<close>
  with no exception otherwise: the assignment of \<open>COMPLETED\<close> is reached exactly when
  the counter is within the ceiling, so a \<open>FAILED\<close> set by the \<open>finally\<close> block is not
  overwritten by the same execution. The same holds of the \<open>finally\<close> block alone.
\<close>

theorem wrapper_failed_or_completed:
  "status (fst (wrapper now oc j)) =
     (if max_crashes j < crashed (fst (wrapper now oc j)) then FAILED else COMPLETED) \<and>
   snd (wrapper now oc j) =
     (if max_crashes j < crashed (fst (wrapper now oc j))
      then Some (Aborting (crashed (fst (wrapper now oc j)))) else None) \<and>
   (status (fst (wrapper now oc j)) = COMPLETED) = (crashed (fst (wrapper now oc j)) \<le> max_crashes j) \<and>
   (status (fst (wrapper now oc j)) = FAILED) = (snd (wrapper now oc j) \<noteq> None) \<and>
   status (fst (wrapper_finally j)) = (if max_crashes j < crashed j then FAILED else COMPLETED) \<and>
   snd (wrapper_finally j) = (if max_crashes j < crashed j then Some (Aborting (crashed j)) else None)"
  by (cases oc) (simp_all add: wrapper_def unit_defs)

section \<open>The list of failure records\<close>

text \<open>
  Claim C7. After any run of a constructed unit, the failure list holds exactly the
  failure texts of the work invocations that raised since the last \<open>Clear\<close> (since
  construction when there was none), in order, so its length is their number. Event
  by event: a raise appends one record, \<open>Clear\<close> empties the list, and no other event
  changes it.
\<close>

theorem exception_log_length:
  assumes "run es (construct every max_c max_r) = Some s"
  shows "length (exception_list (task s)) = failures (since_clear es) \<and>
         exception_list (task s) = raised (since_clear es) \<and>
         (case step e t of None \<Rightarrow> True
          | Some t' \<Rightarrow> exception_list (task t') =
              (case e of Clear \<Rightarrow> []
                       | Finishes (Raises tb) \<Rightarrow> exception_list (task t) @ [tb]
                       | _ \<Rightarrow> exception_list (task t)))"
proof -
  have "exception_list (task s) = raised (since_clear es)"
    using exception_list_run[OF assms] by (simp add: construct_def init_def)
  then show ?thesis
    using exception_list_step[of e t] by (simp add: length_raised split: option.splits)
qed

theorem exception_log_length_witness:
  "\<exists>s. run (pass_arms 10 @ starts 11 @ raises_on 11 ''a'' @ [Clear] @ pass_arms 12 @
            starts 13 @ raises_on 13 ''b'' @ pass_arms 14 @ starts 15 @ returns_on 15 @
            pass_arms 16 @ starts 17 @ raises_on 17 ''c'') (construct 1 10 (- 1)) = Some s \<and>
       length (exception_list (task s)) = 2 \<and> exception_list (task s) = [''b'', ''c'']"
proof -
  let ?es = "pass_arms 10 @ starts 11 @ raises_on 11 ''a'' @ [Clear] @ pass_arms 12 @
            starts 13 @ raises_on 13 ''b'' @ pass_arms 14 @ starts 15 @ returns_on 15 @
            pass_arms 16 @ starts 17 @ raises_on 17 ''c''"
  let ?s = "\<lparr>task = \<lparr>every_seconds = 1, stop_event = False, job = Some 1, crashed = 1,
              runs = 1, max_runs = - 1, max_crashes = 10, status = COMPLETED,
              next_execution_at = 18, exception_list = [''b'', ''c'']\<rparr>,
            lpc = L_flag, armed = 0, wrappers = [], uncaught = []\<rparr>"
  have a: "run ?es (construct 1 10 (- 1)) = Some ?s"
    by code_simp
  have f: "failures (since_clear ?es) = 2" by code_simp
  have r: "raised (since_clear ?es) = [''b'', ''c'']" by code_simp
  from exception_log_length[OF a] have
    "length (exception_list (task ?s)) = failures (since_clear ?es)"
    "exception_list (task ?s) = raised (since_clear ?es)"
    by blast+
  with a f r show ?thesis by metis
qed

text \<open>
  Claim C9. After any run of a constructed unit the accessor \<open>exception\<close> returns \<open>None\<close>
  exactly when no invocation raised since construction or the last \<open>Clear\<close>, and
  otherwise the failure texts since then in order. For any object it returns \<open>None\<close>
  exactly when the list is empty, and the list otherwise.
\<close>

theorem exception_accessor:
  assumes "run es (construct every max_c max_r) = Some s"
  shows "(exception (task s) = None) = (failures (since_clear es) = 0) \<and>
         exception (task s) =
           (if failures (since_clear es) = 0 then None else Some (raised (since_clear es))) \<and>
         (exception j = None) = (exception_list j = []) \<and>
         exception j = (if exception_list j = [] then None else Some (exception_list j))"
proof -
  have "exception_list (task s) = raised (since_clear es)"
    using exception_list_run[OF assms] by (simp add: construct_def init_def)
  moreover have "length (raised (since_clear es)) = failures (since_clear es)"
    by (rule length_raised)
  ultimately show ?thesis
    by (auto simp: exception_def)
qed

theorem exception_accessor_witness:
  "\<exists>s s'. run (pass_arms 10 @ starts 11 @ raises_on 11 ''a'' @ pass_arms 12 @ starts 13 @
              raises_on 13 ''b'') (construct 1 10 (- 1)) = Some s \<and>
       exception (task s) = Some [''a'', ''b''] \<and>
       run (pass_arms 10 @ starts 11 @ raises_on 11 ''a'' @ [Clear] @ pass_arms 12 @
              starts 13 @ returns_on 13) (construct 1 10 (- 1)) = Some s' \<and>
       exception (task s') = None"
proof -
  let ?es = "pass_arms 10 @ starts 11 @ raises_on 11 ''a'' @ pass_arms 12 @ starts 13 @
              raises_on 13 ''b''"
  let ?es' = "pass_arms 10 @ starts 11 @ raises_on 11 ''a'' @ [Clear] @ pass_arms 12 @
              starts 13 @ returns_on 13"
  let ?s = "\<lparr>task = \<lparr>every_seconds = 1, stop_event = False, job = Some 1, crashed = 2,
              runs = 0, max_runs = - 1, max_crashes = 10, status = COMPLETED,
              next_execution_at = 14, exception_list = [''a'', ''b'']\<rparr>,
            lpc = L_flag, armed = 0, wrappers = [], uncaught = []\<rparr>"
  let ?s' = "\<lparr>task = \<lparr>every_seconds = 1, stop_event = False, job = Some 1, crashed = 0,
              runs = 1, max_runs = - 1, max_crashes = 10, status = COMPLETED,
              next_execution_at = 14, exception_list = []\<rparr>,
            lpc = L_flag, armed = 0, wrappers = [], uncaught = []\<rparr>"
  have a: "run ?es (construct 1 10 (- 1)) = Some ?s" by code_simp
  have b: "run ?es' (construct 1 10 (- 1)) = Some ?s'" by code_simp
  have fa: "failures (since_clear ?es) = 2" "raised (since_clear ?es) = [''a'', ''b'']"
    by code_simp+
  have fb: "failures (since_clear ?es') = 0" by code_simp
  have "exception (task ?s) =
      (if failures (since_clear ?es) = 0 then None else Some (raised (since_clear ?es)))"
    using exception_accessor[OF a] by blast
  then have 1: "exception (task ?s) = Some [''a'', ''b'']"
    unfolding fa by simp
  have "exception (task ?s') =
      (if failures (since_clear ?es') = 0 then None else Some (raised (since_clear ?es')))"
    using exception_accessor[OF b] by blast
  then have 2: "exception (task ?s') = None"
    unfolding fb by simp
  from a b 1 2 show ?thesis by blast
qed

section \<open>One-shot units and the ceiling of runs\<close>

text \<open>
  Claim C1 says that a unit with period 0 is terminal after exactly one execution
  whether the work returned or raised. The request for termination sits in the \<open>try\<close>
  block after the call, so a raise skips it: with period 0 and a ceiling of 10, after one
  execution that raised the status is \<open>COMPLETED\<close> with the stop flag unset, and the
  next pass of the loop and the next timer start a second execution.
\<close>

theorem one_shot_fails_and_retries:
  "run (pass_arms 10 @ starts 11 @ raises_on 11 ''boom'') (construct 0 10 (- 1)) =
     Some \<lparr>task = \<lparr>every_seconds = 0, stop_event = False, job = Some 1, crashed = 1, runs = 0,
                  max_runs = - 1, max_crashes = 10, status = COMPLETED,
                  next_execution_at = 11, exception_list = [''boom'']\<rparr>,
           lpc = L_flag, armed = 0, wrappers = [], uncaught = []\<rparr> \<and>
   run (pass_arms 10 @ starts 11 @ raises_on 11 ''boom'' @ pass_arms 12 @ starts 13)
       (construct 0 10 (- 1)) =
     Some \<lparr>task = \<lparr>every_seconds = 0, stop_event = False, job = Some 1, crashed = 1, runs = 0,
                  max_runs = - 1, max_crashes = 10, status = RUNNING,
                  next_execution_at = 13, exception_list = [''boom'']\<rparr>,
           lpc = L_flag, armed = 0, wrappers = [W_call], uncaught = []\<rparr>"
  by code_simp

text \<open>
  Claim C1, as the code has it, for an object with period 0. One call of the wrapper
  and one pass of the loop are each taken as a whole in the first two parts.

  An execution whose work returns increments the counter of successful runs and sets
  the stop flag; a pass of the loop that follows it ends the loop, arms nothing and
  leaves the status \<open>TERMINATED\<close> (\<open>FAILED\<close> when the crash ceiling is negative). In the
  schedule in which the first pass, the first execution and the second pass follow
  each other with nothing in between, a unit with a non-negative ceiling whose work
  returns is \<open>TERMINATED\<close> after exactly one execution, its loop has ended and nothing
  is armed or running.

  An execution whose work raises sets the stop flag only if the crash counter then
  exceeds the ceiling, and then the status is \<open>FAILED\<close>; otherwise the flag is as it
  was and the status is \<open>COMPLETED\<close>, and a pass of the loop that follows it with the
  flag unset does not end the loop but arms the next execution.

  Under every interleaving of the statements of the threads: as long as no execution
  has returned, the raises have not passed a non-negative ceiling and the owner has
  not called \<open>stop\<close>, the stop flag is unset, the loop has not ended, and the status is
  neither \<open>FAILED\<close> nor \<open>TERMINATED\<close>.
\<close>

theorem one_shot:
  assumes "every_seconds j = 0"
  shows "runs (fst (wrapper now Returns j)) = runs j + 1 \<and>
     stop_event (fst (wrapper now Returns j)) \<and>
     fst (snd (loop_body t (fst (wrapper now Returns j)))) \<and>
     \<not> snd (snd (loop_body t (fst (wrapper now Returns j)))) \<and>
     status (fst (loop_body t (fst (wrapper now Returns j)))) =
       (if max_crashes j < 0 then FAILED else TERMINATED) \<and>
     (0 \<le> K \<longrightarrow>
        (\<exists>s. run (pass_arms t @ starts now @ returns_stop now @ pass_ends t) (construct 0 K N)
               = Some s \<and>
             status (task s) = TERMINATED \<and> runs (task s) = 1 \<and> lpc s = L_exit \<and>
             armed s = 0 \<and> wrappers s = [])) \<and>
     stop_event (fst (wrapper now (Raises tb) j)) =
       (stop_event j \<or> max_crashes j < crashed j + 1) \<and>
     status (fst (wrapper now (Raises tb) j)) =
       (if max_crashes j < crashed j + 1 then FAILED else COMPLETED) \<and>
     (\<not> stop_event j \<and> crashed j + 1 \<le> max_crashes j \<longrightarrow>
        \<not> fst (snd (loop_body t (fst (wrapper now (Raises tb) j)))) \<and>
        snd (snd (loop_body t (fst (wrapper now (Raises tb) j)))) \<and>
        status (fst (loop_body t (fst (wrapper now (Raises tb) j)))) = SCHEDULED) \<and>
     (run es (construct 0 K N) = Some s \<and> Stop \<notin> set es \<and> successes es = 0 \<and>
      0 \<le> K \<and> int (failures es) \<le> K \<longrightarrow>
        \<not> stop_event (task s) \<and> lpc s \<noteq> L_exit \<and>
        status (task s) \<noteq> FAILED \<and> status (task s) \<noteq> TERMINATED)"
proof -
  have 1: "runs (fst (wrapper now Returns j)) = runs j + 1 \<and>
     stop_event (fst (wrapper now Returns j)) \<and>
     fst (snd (loop_body t (fst (wrapper now Returns j)))) \<and>
     \<not> snd (snd (loop_body t (fst (wrapper now Returns j)))) \<and>
     status (fst (loop_body t (fst (wrapper now Returns j)))) =
       (if max_crashes j < 0 then FAILED else TERMINATED)"
    using assms by (simp add: wrapper_returns loop_body_def)
  have 2: "\<exists>s. run (pass_arms t @ starts now @ returns_stop now @ pass_ends t) (construct 0 K N)
               = Some s \<and>
             status (task s) = TERMINATED \<and> runs (task s) = 1 \<and> lpc s = L_exit \<and>
             armed s = 0 \<and> wrappers s = []"
    if "0 \<le> K"
    using that by (rule one_shot_round)
  have 3: "stop_event (fst (wrapper now (Raises tb) j)) =
       (stop_event j \<or> max_crashes j < crashed j + 1) \<and>
     status (fst (wrapper now (Raises tb) j)) =
       (if max_crashes j < crashed j + 1 then FAILED else COMPLETED)"
    by (simp add: wrapper_raises)
  have 4: "\<not> fst (snd (loop_body t (fst (wrapper now (Raises tb) j)))) \<and>
        snd (snd (loop_body t (fst (wrapper now (Raises tb) j)))) \<and>
        status (fst (loop_body t (fst (wrapper now (Raises tb) j)))) = SCHEDULED"
    if "\<not> stop_event j" "crashed j + 1 \<le> max_crashes j"
    using that by (simp add: wrapper_raises loop_body_def Let_def)
  have 5: "\<not> stop_event (task s) \<and> lpc s \<noteq> L_exit \<and>
        status (task s) \<noteq> FAILED \<and> status (task s) \<noteq> TERMINATED"
    if "run es (construct 0 K N) = Some s" "Stop \<notin> set es" "successes es = 0"
      "0 \<le> K" "int (failures es) \<le> K"
    using unrequested_run[OF that] within_ceiling_run[OF that(1,4,5)] by simp
  from 1 2 3 4 5 show ?thesis by blast
qed

theorem one_shot_witness:
  "every_seconds (init 0 10 (- 1)) = 0 \<and>
   stop_event (fst (wrapper 11 Returns (init 0 10 (- 1)))) \<and>
   status (fst (loop_body 12 (fst (wrapper 11 Returns (init 0 10 (- 1)))))) = TERMINATED \<and>
   \<not> stop_event (init 0 10 (- 1)) \<and>
   crashed (init 0 10 (- 1)) + 1 \<le> max_crashes (init 0 10 (- 1)) \<and>
   \<not> stop_event (fst (wrapper 11 (Raises ''boom'') (init 0 10 (- 1)))) \<and>
   snd (snd (loop_body 12 (fst (wrapper 11 (Raises ''boom'') (init 0 10 (- 1)))))) \<and>
   (\<exists>s. run (pass_arms 10 @ starts 11 @ raises_on 11 ''boom'') (construct 0 10 (- 1)) = Some s \<and>
      Stop \<notin> set (pass_arms 10 @ starts 11 @ raises_on 11 ''boom'') \<and>
      successes (pass_arms 10 @ starts 11 @ raises_on 11 ''boom'') = 0 \<and> (0::int) \<le> 10 \<and>
      int (failures (pass_arms 10 @ starts 11 @ raises_on 11 ''boom'')) \<le> 10 \<and>
      \<not> stop_event (task s) \<and> lpc s \<noteq> L_exit \<and> status (task s) \<noteq> FAILED \<and>
      status (task s) \<noteq> TERMINATED)"
proof -
  let ?j = "init 0 10 (- 1)"
  let ?es = "pass_arms 10 @ starts 11 @ raises_on 11 ''boom''"
  let ?s = "\<lparr>task = \<lparr>every_seconds = 0, stop_event = False, job = Some 1, crashed = 1,
              runs = 0, max_runs = - 1, max_crashes = 10, status = COMPLETED,
              next_execution_at = 11, exception_list = [''boom'']\<rparr>,
            lpc = L_flag, armed = 0, wrappers = [], uncaught = []\<rparr>"
  have h: "every_seconds ?j = 0" by (simp add: init_def)
  have g: "\<not> stop_event ?j" "crashed ?j + 1 \<le> max_crashes ?j" "max_crashes ?j = 10"
    "crashed ?j = 0"
    by (simp_all add: init_def)
  have a: "run ?es (construct 0 10 (- 1)) = Some ?s" by code_simp
  have n: "Stop \<notin> set ?es" by (simp add: piece_defs)
  have su: "successes ?es = 0" by code_simp
  have fa: "int (failures ?es) \<le> 10" by code_simp
  have k: "(0::int) \<le> 10" by simp
  note m = one_shot[OF h, where now = 11 and t = 12 and tb = "''boom''" and K = 10
      and N = "- 1" and es = ?es and s = ?s]
  from m have 1: "stop_event (fst (wrapper 11 Returns ?j))" by blast
  from m g have 2: "status (fst (loop_body 12 (fst (wrapper 11 Returns ?j)))) = TERMINATED"
    by simp
  from m g have 3: "\<not> stop_event (fst (wrapper 11 (Raises ''boom'') ?j))" by simp
  from m g have 4: "snd (snd (loop_body 12 (fst (wrapper 11 (Raises ''boom'') ?j))))"
    by blast
  from m a n su k fa have 5: "\<not> stop_event (task ?s) \<and> lpc ?s \<noteq> L_exit \<and>
      status (task ?s) \<noteq> FAILED \<and> status (task ?s) \<noteq> TERMINATED"
    by blast
  from h g(1,2) 1 2 3 4 5 a n su k fa show ?thesis
    by (intro conjI exI[of _ ?s]) blast+
qed

text \<open>
  Claim C2 says that a unit with \<open>max_runs = N\<close> whose work always returns requests
  termination exactly when the counter of successful runs reaches \<open>N\<close>. The wrapper
  requests termination also when the period is 0: a unit with period 0 and
  \<open>max_runs = 2\<close> has the stop flag set after its first successful run, with the
  counter at 1, and the next pass of the loop ends it there.
\<close>

theorem max_runs_one_shot:
  "run (pass_arms 10 @ starts 11 @ returns_stop 11) (construct 0 10 2) =
     Some \<lparr>task = \<lparr>every_seconds = 0, stop_event = True, job = Some 1, crashed = 0, runs = 1,
                  max_runs = 2, max_crashes = 10, status = COMPLETED,
                  next_execution_at = 11, exception_list = []\<rparr>,
           lpc = L_flag, armed = 0, wrappers = [], uncaught = []\<rparr> \<and>
   run (pass_arms 10 @ starts 11 @ returns_stop 11 @ pass_ends 12) (construct 0 10 2) =
     Some \<lparr>task = \<lparr>every_seconds = 0, stop_event = True, job = Some 1, crashed = 0, runs = 1,
                  max_runs = 2, max_crashes = 10, status = TERMINATED,
                  next_execution_at = 11, exception_list = []\<rparr>,
           lpc = L_exit, armed = 0, wrappers = [], uncaught = []\<rparr>"
  by code_simp

text \<open>
  The wrapper compares \<open>runs\<close> with \<open>max_runs\<close> only after it has incremented \<open>runs\<close>,
  so with \<open>max_runs = 0\<close> the comparison never holds: after two successful executions
  of a unit with period 1 the counter is 2, the stop flag is unset, and a third
  execution is running.
\<close>

theorem max_runs_zero_unbounded:
  "run (pass_arms 10 @ starts 11 @ returns_on 11 @ pass_arms 12 @ starts 13 @ returns_on 13 @
        pass_arms 14 @ starts 15) (construct 1 10 0) =
     Some \<lparr>task = \<lparr>every_seconds = 1, stop_event = False, job = Some 1, crashed = 0, runs = 2,
                  max_runs = 0, max_crashes = 10, status = RUNNING,
                  next_execution_at = 16, exception_list = []\<rparr>,
           lpc = L_flag, armed = 0, wrappers = [W_call], uncaught = []\<rparr>"
  by code_simp

text \<open>
  Claim C2, as the code has it, for a ceiling \<open>max_runs = N\<close> of at least 1. One call
  of the wrapper and one pass of the loop are each taken as a whole in the first part.

  An execution whose work returns increments the counter of successful runs, and
  after it the stop flag is set exactly when it was set before, the period is 0, the
  incremented counter is \<open>N\<close>, or the crash ceiling is negative; so with a period
  other than 0 the wrapper requests termination when the counter reaches \<open>N\<close> and not
  before, and with period 0 at the first successful run already. A pass of the loop
  that finds the flag set ends the loop and arms nothing.

  In the schedule in which passes of the loop and executions follow each other with
  nothing in between, a unit with a period other than 0 and a non-negative crash
  ceiling whose work always returns performs exactly \<open>N\<close> executions: after them the
  counter is \<open>N\<close>, the status is \<open>TERMINATED\<close>, the loop has ended and nothing is armed
  or running.

  Under every interleaving of the statements of the threads, with a period other than
  0, raises within a non-negative crash ceiling and no call of \<open>stop\<close> by the owner:
  whenever the stop flag is set, the counter has reached \<open>N\<close>.
\<close>

theorem max_runs_ceiling:
  assumes "1 \<le> N" and "max_runs j = N"
  shows "runs (fst (wrapper now Returns j)) = runs j + 1 \<and>
     stop_event (fst (wrapper now Returns j)) =
       (stop_event j \<or> every_seconds j = 0 \<or> runs j + 1 = N \<or> max_crashes j < 0) \<and>
     fst (snd (loop_body t (stop j'))) \<and> \<not> snd (snd (loop_body t (stop j'))) \<and>
     (every \<noteq> 0 \<and> 0 \<le> K \<longrightarrow>
        (\<exists>s. run (succeeding_rounds (nat N - 1) now @ pass_arms now @ starts now @
                  returns_stop now @ pass_ends now) (construct every K N) = Some s \<and>
             runs (task s) = N \<and> status (task s) = TERMINATED \<and> lpc s = L_exit \<and>
             armed s = 0 \<and> wrappers s = [])) \<and>
     (run es (construct every K N) = Some s \<and> every \<noteq> 0 \<and> 0 \<le> K \<and> Stop \<notin> set es \<and>
      int (failures es) \<le> K \<and> stop_event (task s) \<longrightarrow> N \<le> runs (task s))"
proof -
  have 1: "runs (fst (wrapper now Returns j)) = runs j + 1 \<and>
     stop_event (fst (wrapper now Returns j)) =
       (stop_event j \<or> every_seconds j = 0 \<or> runs j + 1 = N \<or> max_crashes j < 0)"
    using assms(2) by (simp add: wrapper_returns)
  have 2: "fst (snd (loop_body t (stop j'))) \<and> \<not> snd (snd (loop_body t (stop j')))"
    by (simp add: loop_body_def stop_def)
  have 3: "\<exists>s. run (succeeding_rounds (nat N - 1) now @ pass_arms now @ starts now @
                  returns_stop now @ pass_ends now) (construct every K N) = Some s \<and>
             runs (task s) = N \<and> status (task s) = TERMINATED \<and> lpc s = L_exit \<and>
             armed s = 0 \<and> wrappers s = []"
    if "every \<noteq> 0" "0 \<le> K"
    using assms(1) that by (rule exactly_max_runs)
  have 4: "N \<le> runs (task s)"
    if "run es (construct every K N) = Some s" "every \<noteq> 0" "0 \<le> K" "Stop \<notin> set es"
      "int (failures es) \<le> K" "stop_event (task s)"
    using not_before_run[OF that(1-5)] that(6) by simp
  from 1 2 3 4 show ?thesis by blast
qed

theorem max_runs_ceiling_witness:
  "(1::int) \<le> 2 \<and> max_runs ((init 1 10 2)\<lparr>runs := 1\<rparr>) = 2 \<and>
   runs (fst (wrapper 13 Returns ((init 1 10 2)\<lparr>runs := 1\<rparr>))) = 2 \<and>
   stop_event (fst (wrapper 13 Returns ((init 1 10 2)\<lparr>runs := 1\<rparr>))) \<and>
   \<not> stop_event (fst (wrapper 11 Returns (init 1 10 2))) \<and>
   (\<exists>s. run (pass_arms 10 @ starts 11 @ returns_on 11 @ pass_arms 12 @ starts 13 @
             returns_stop 13) (construct 1 10 2) = Some s \<and>
      (1::rat) \<noteq> 0 \<and> (0::int) \<le> 10 \<and>
      Stop \<notin> set (pass_arms 10 @ starts 11 @ returns_on 11 @ pass_arms 12 @ starts 13 @
                   returns_stop 13) \<and>
      int (failures (pass_arms 10 @ starts 11 @ returns_on 11 @ pass_arms 12 @ starts 13 @
                   returns_stop 13)) \<le> 10 \<and>
      stop_event (task s) \<and> 2 \<le> runs (task s))"
proof -
  let ?j = "(init 1 10 2)\<lparr>runs := 1\<rparr>"
  let ?i = "init 1 10 2"
  let ?es = "pass_arms 10 @ starts 11 @ returns_on 11 @ pass_arms 12 @ starts 13 @
             returns_stop 13"
  let ?s = "\<lparr>task = \<lparr>every_seconds = 1, stop_event = True, job = Some 1, crashed = 0,
              runs = 2, max_runs = 2, max_crashes = 10, status = COMPLETED,
              next_execution_at = 14, exception_list = []\<rparr>,
            lpc = L_flag, armed = 0, wrappers = [], uncaught = []\<rparr>"
  have n: "(1::int) \<le> 2" by simp
  have hj: "max_runs ?j = 2" and hi: "max_runs ?i = 2" by (simp_all add: init_def)
  have gj: "runs ?j = 1" "every_seconds ?j = 1" "\<not> stop_event ?j" "max_crashes ?j = 10"
    by (simp_all add: init_def)
  have gi: "runs ?i = 0" "every_seconds ?i = 1" "\<not> stop_event ?i" "max_crashes ?i = 10"
    by (simp_all add: init_def)
  have a: "run ?es (construct 1 10 2) = Some ?s" by code_simp
  have h: "(1::rat) \<noteq> 0" "(0::int) \<le> 10" by simp_all
  have ns: "Stop \<notin> set ?es" by (simp add: piece_defs)
  have fa: "int (failures ?es) \<le> 10" by code_simp
  have st: "stop_event (task ?s)" by simp
  note m = max_runs_ceiling[OF n hj, where now = 13 and every = 1 and K = 10 and es = ?es
      and s = ?s]
  note m' = max_runs_ceiling[OF n hi, where now = 11]
  from m gj have 1: "runs (fst (wrapper 13 Returns ?j)) = 2"
    "stop_event (fst (wrapper 13 Returns ?j))"
    by simp_all
  from m' gi have 2: "\<not> stop_event (fst (wrapper 11 Returns ?i))" by simp
  from m a h ns fa st have 3: "2 \<le> runs (task ?s)" by blast
  from n hj 1 2 3 a h ns fa st show ?thesis
    by (intro conjI exI[of _ ?s]) blast+
qed

section \<open>Where the threads get in each other's way\<close>

text \<open>
  Claim C3 says that with a positive ceiling \<open>K\<close> and work that always raises the
  status becomes \<open>FAILED\<close> at the end of execution \<open>K + 1\<close> and that the crash counter
  never exceeds \<open>K\<close> while the status is not \<open>FAILED\<close>. The loop starts the timer (line
  120) before it stores \<open>SCHEDULED\<close> (line 121). Take period 2/5 and ceiling 1. The
  first execution raises and ends in \<open>COMPLETED\<close>. In its next pass the loop computes
  a delay of 0 and starts the timer; the timer fires at once and the second execution
  raises, stores \<open>FAILED\<close> and sets the stop flag, all before the loop goes on. Then the
  loop stores \<open>SCHEDULED\<close> over \<open>FAILED\<close>, and in its next pass it finds the flag set and
  the status not \<open>FAILED\<close> and stores \<open>TERMINATED\<close>: the unit ends with the counter at 2
  and the status \<open>TERMINATED\<close>.
\<close>

theorem ceiling_passed_not_failed:
  "run (pass_arms 10 @ starts 11 @ raises_on 11 ''a'' @ pass_starts (56 / 5) @
        starts (56 / 5) @ raises_fail (56 / 5) ''b'') (construct (2 / 5) 1 (- 1)) =
     Some \<lparr>task = \<lparr>every_seconds = 2 / 5, stop_event = True, job = Some 0, crashed = 2,
                  runs = 0, max_runs = - 1, max_crashes = 1, status = FAILED,
                  next_execution_at = 58 / 5, exception_list = [''a'', ''b'']\<rparr>,
           lpc = L_sched, armed = 0, wrappers = [], uncaught = [Aborting 2]\<rparr> \<and>
   run (pass_arms 10 @ starts 11 @ raises_on 11 ''a'' @ pass_starts (56 / 5) @
        starts (56 / 5) @ raises_fail (56 / 5) ''b'' @ [Loop (57 / 5)] @ pass_ends (62 / 5))
       (construct (2 / 5) 1 (- 1)) =
     Some \<lparr>task = \<lparr>every_seconds = 2 / 5, stop_event = True, job = Some 0, crashed = 2,
                  runs = 0, max_runs = - 1, max_crashes = 1, status = TERMINATED,
                  next_execution_at = 58 / 5, exception_list = [''a'', ''b'']\<rparr>,
           lpc = L_exit, armed = 0, wrappers = [], uncaught = [Aborting 2]\<rparr>"
  by code_simp

text \<open>
  Claim C5 says that a status \<open>FAILED\<close> is never replaced by \<open>TERMINATED\<close> and is the
  status observed last. Line 108 keeps \<open>FAILED\<close> only if it reads \<open>FAILED\<close>. Take
  period 2/5 and ceiling 0, and work that returns the first time and raises the
  second. As above the second execution runs between lines 120 and 121 of the loop:
  it stores \<open>FAILED\<close> and sets the stop flag, the loop stores \<open>SCHEDULED\<close> over it, and
  the next pass reads \<open>SCHEDULED\<close> at line 108 and stores \<open>TERMINATED\<close>. The status
  observed last is \<open>TERMINATED\<close>, after \<open>FAILED\<close> had been reached.
\<close>

theorem failed_then_terminated:
  "run (pass_arms 10 @ starts 11 @ returns_on 11 @ pass_starts (56 / 5) @ starts (56 / 5) @
        raises_fail (56 / 5) ''b'') (construct (2 / 5) 0 (- 1)) =
     Some \<lparr>task = \<lparr>every_seconds = 2 / 5, stop_event = True, job = Some 0, crashed = 1,
                  runs = 1, max_runs = - 1, max_crashes = 0, status = FAILED,
                  next_execution_at = 58 / 5, exception_list = [''b'']\<rparr>,
           lpc = L_sched, armed = 0, wrappers = [], uncaught = [Aborting 1]\<rparr> \<and>
   run (pass_arms 10 @ starts 11 @ returns_on 11 @ pass_starts (56 / 5) @ starts (56 / 5) @
        raises_fail (56 / 5) ''b'' @ [Loop (57 / 5)]) (construct (2 / 5) 0 (- 1)) =
     Some \<lparr>task = \<lparr>every_seconds = 2 / 5, stop_event = True, job = Some 0, crashed = 1,
                  runs = 1, max_runs = - 1, max_crashes = 0, status = SCHEDULED,
                  next_execution_at = 58 / 5, exception_list = [''b'']\<rparr>,
           lpc = L_flag, armed = 0, wrappers = [], uncaught = [Aborting 1]\<rparr> \<and>
   run (pass_arms 10 @ starts 11 @ returns_on 11 @ pass_starts (56 / 5) @ starts (56 / 5) @
        raises_fail (56 / 5) ''b'' @ [Loop (57 / 5)] @ pass_ends (62 / 5))
       (construct (2 / 5) 0 (- 1)) =
     Some \<lparr>task = \<lparr>every_seconds = 2 / 5, stop_event = True, job = Some 0, crashed = 1,
                  runs = 1, max_runs = - 1, max_crashes = 0, status = TERMINATED,
                  next_execution_at = 58 / 5, exception_list = [''b'']\<rparr>,
           lpc = L_exit, armed = 0, wrappers = [], uncaught = [Aborting 1]\<rparr>"
  by code_simp

text \<open>
  Claim C6 says that after \<open>stop\<close> on a unit between executions the next poll makes the
  unit \<open>TERMINATED\<close> and nothing is armed any more. The loop tests the stop flag once
  per pass (line 105) and the status later (lines 111 and 115). Take period 5. After
  the first execution the status is \<open>COMPLETED\<close> and nothing is armed or running; the
  loop tests the flag, which is unset; now the owner calls \<open>stop\<close>. The loop goes on
  with the same pass: it finds \<open>COMPLETED\<close>, starts a timer and stores \<open>SCHEDULED\<close>. In
  its next pass it finds the flag, stores \<open>TERMINATED\<close> and ends, with the timer still
  armed. The timer fires, the work runs once more, and the wrapper stores
  \<open>COMPLETED\<close>: the unit has executed after \<open>stop\<close>, and its last status is
  \<open>COMPLETED\<close> with the loop gone.
\<close>

theorem runs_after_stop:
  "run (pass_arms 10 @ starts 11 @ returns_on 11 @ [Loop 12]) (construct 5 10 (- 1)) =
     Some \<lparr>task = \<lparr>every_seconds = 5, stop_event = False, job = Some 1, crashed = 0, runs = 1,
                  max_runs = - 1, max_crashes = 10, status = COMPLETED,
                  next_execution_at = 16, exception_list = []\<rparr>,
           lpc = L_running, armed = 0, wrappers = [], uncaught = []\<rparr> \<and>
   run (pass_arms 10 @ starts 11 @ returns_on 11 @ [Loop 12] @
        [Stop, Loop 12, Loop 12, Loop 12, Loop 12, Loop 12] @ pass_ends 13)
       (construct 5 10 (- 1)) =
     Some \<lparr>task = \<lparr>every_seconds = 5, stop_event = True, job = Some 4, crashed = 0, runs = 1,
                  max_runs = - 1, max_crashes = 10, status = TERMINATED,
                  next_execution_at = 16, exception_list = []\<rparr>,
           lpc = L_exit, armed = 1, wrappers = [], uncaught = []\<rparr> \<and>
   run (pass_arms 10 @ starts 11 @ returns_on 11 @ [Loop 12] @
        [Stop, Loop 12, Loop 12, Loop 12, Loop 12, Loop 12] @ pass_ends 13 @
        starts 16 @ returns_on 16) (construct 5 10 (- 1)) =
     Some \<lparr>task = \<lparr>every_seconds = 5, stop_event = True, job = Some 4, crashed = 0, runs = 2,
                  max_runs = - 1, max_crashes = 10, status = COMPLETED,
                  next_execution_at = 21, exception_list = []\<rparr>,
           lpc = L_exit, armed = 0, wrappers = [], uncaught = []\<rparr>"
  by code_simp

text \<open>
  The same window lets a unit pass its ceiling of runs. Take period 1 and
  \<open>max_runs = 1\<close>. The first execution has counted its run and found the ceiling
  reached, but has not yet called \<open>stop\<close>, when the loop tests the flag; the wrapper
  then sets the flag and stores \<open>COMPLETED\<close>, and the loop, in the same pass, finds
  \<open>COMPLETED\<close> and starts a timer. The next pass ends the loop; the timer fires and
  the work runs a second time.
\<close>

theorem max_runs_overrun:
  "run (pass_arms 10 @ starts 11 @
        [Finishes Returns, Wrapper W_reset 11, Wrapper W_count 11, Wrapper W_test 11] @
        [Loop 11] @ [Wrapper W_stop 11, Wrapper W_finally 11, Wrapper W_complete 11])
       (construct 1 10 1) =
     Some \<lparr>task = \<lparr>every_seconds = 1, stop_event = True, job = Some 1, crashed = 0, runs = 1,
                  max_runs = 1, max_crashes = 10, status = COMPLETED,
                  next_execution_at = 12, exception_list = []\<rparr>,
           lpc = L_running, armed = 0, wrappers = [], uncaught = []\<rparr> \<and>
   run (pass_arms 10 @ starts 11 @
        [Finishes Returns, Wrapper W_reset 11, Wrapper W_count 11, Wrapper W_test 11] @
        [Loop 11] @ [Wrapper W_stop 11, Wrapper W_finally 11, Wrapper W_complete 11] @
        [Loop 11, Loop 11, Loop 11, Loop 11, Loop 11] @ pass_ends 12 @ starts 12 @
        returns_on 12) (construct 1 10 1) =
     Some \<lparr>task = \<lparr>every_seconds = 1, stop_event = True, job = Some 1, crashed = 0, runs = 2,
                  max_runs = 1, max_crashes = 10, status = COMPLETED,
                  next_execution_at = 13, exception_list = []\<rparr>,
           lpc = L_exit, armed = 0, wrappers = [], uncaught = []\<rparr>"
  by code_simp

end
